theory Spec2Isabelle
  imports Main "HOL-Library.Sublist" "HOL-Library.List_Lexorder"
begin

section \<open>Python strings and exceptions\<close>

text \<open>
  A Python \<open>str\<close> is a sequence of Unicode code points; \<open>ord\<close> and \<open>chr\<close> convert between
  a one-character string and its code point. A string is modelled by the list of its code
  points, so that \<open>chr(ord(c) + 1)\<close> is exact and \<open>len\<close> counts what Python counts.
\<close>

type_synonym codepoint = nat
type_synonym pystr = "codepoint list"

definition lit :: "string \<Rightarrow> pystr" where
  "lit s = map of_char s"

text \<open>
  \<open>Error\<close> stands for any instance of Python's \<open>Exception\<close> (TimeoutError, ValueError,
  AttributeError, ...), which \<open>except Exception\<close> catches; \<open>Interrupt\<close> for a
  \<open>BaseException\<close> outside \<open>Exception\<close> (KeyboardInterrupt, CancelledError), which only a
  bare \<open>except:\<close> catches.
\<close>

datatype exc = Error | Interrupt

definition py_chr :: "nat \<Rightarrow> exc + codepoint" where
  \<comment> \<open>\<open>chr(n)\<close>: ValueError outside \<open>range(0x110000)\<close>.\<close>
  "py_chr n = (if n < 0x110000 then Inr n else Inl Error)"

primrec contains :: "'a list \<Rightarrow> 'a list \<Rightarrow> bool" where
  \<comment> \<open>\<open>sub in s\<close> on strings: \<open>sub\<close> occurs in \<open>s\<close> as a contiguous run.\<close>
  "contains sub [] = (sub = [])"
| "contains sub (c # s) = (prefix sub (c # s) \<or> contains sub s)"

section \<open>The query enumerator (lines 189-190 and 269-275)\<close>

definition letter_a :: codepoint where
  "letter_a = of_char CHR ''a''"

definition letter_z :: codepoint where
  "letter_z = of_char CHR ''z''"

text \<open>
  \<open>while len(search_word) > 0 and search_word[-1] == 'z': search_word.pop()\<close>
\<close>

function pop_z :: "codepoint list \<Rightarrow> codepoint list" where
  "pop_z w = (if length w > 0 \<and> last w = letter_z then pop_z (butlast w) else w)"
  by pat_completeness auto
termination
  by (relation "measure length") auto

declare pop_z.simps [simp del]

text \<open>
  The branch on \<open>businesses_count_200\<close>. The list is mutated in place, so when
  \<open>chr\<close> raises the letters popped so far stay popped: the result is the list after the
  step together with the exception raised, if any.
\<close>

definition enumerator_step :: "bool \<Rightarrow> codepoint list \<Rightarrow> codepoint list \<times> exc option" where
  "enumerator_step businesses_count_200 search_word =
     (if businesses_count_200 then (search_word @ [letter_a], None)
      else
        let w = pop_z search_word in
        if length w > 0 then
          (case py_chr (last w + 1) of
             Inl e \<Rightarrow> (w, Some e)
           | Inr c \<Rightarrow> (w[length w - 1 := c], None))
        else (w, None))"

text \<open>
  The spec's \<open>advance\<close>: the loop guard \<open>len(search_word) > 0\<close> of line 190 read as an
  optional next term, none when the guard ends the loop.
\<close>

definition advance :: "bool \<Rightarrow> codepoint list \<Rightarrow> codepoint list option" where
  "advance saturated w =
     (let w' = fst (enumerator_step saturated w) in if length w' > 0 then Some w' else None)"

definition lowercase :: "codepoint list \<Rightarrow> bool" where
  \<comment> \<open>every letter lies in \<open>'a'..'z'\<close>\<close>
  "lowercase w = (\<forall>c \<in> set w. letter_a \<le> c \<and> c \<le> letter_z)"

text \<open>
  The loop of lines 189-190 and 269-275 with the browser left out: one saturation signal
  per pass. It gives the terms the loop works on, in order, and the letters left when the
  signals run out or the guard ends the loop.
\<close>

fun enumeration :: "bool list \<Rightarrow> codepoint list \<Rightarrow> codepoint list list \<times> codepoint list" where
  "enumeration [] w = ([], w)"
| "enumeration (s # ss) w =
     (if length w > 0 then
        (let (ts, wf) = enumeration ss (fst (enumerator_step s w)) in (w # ts, wf))
      else ([], w))"

section \<open>Search results and the sink's classification (lines 252-257 and 316-320)\<close>

text \<open>
  Modelled from the spec: \<open>SearchResult\<close> is imported from \<open>concurrent_scraper\<close>, which is
  not among the sources; the record has the fields this file sets or reads, without the
  elapsed time (a float read from the clock).
\<close>

record search_result =
  business_name :: pystr
  html_content :: pystr
  success :: bool

datatype status = Found | No_Data | Error_Status

definition save_result_status :: "search_result \<Rightarrow> status" where
  "save_result_status res =
     (let status = (if success res \<and> \<not> contains (lit ''No results found'') (html_content res)
                    then Found else No_Data)
      in if \<not> success res then Error_Status else status)"

text \<open>
  The session's own test for an empty result page, line 249 (\<open>pass # Success but empty\<close>);
  the locator of line 222 waits for the same two phrases.
\<close>

definition no_results_page :: "pystr \<Rightarrow> bool" where
  "no_results_page html \<longleftrightarrow>
     contains (lit ''No results found'') html \<or> contains (lit ''No matches found'') html"

section \<open>The session (lines 89-291)\<close>

text \<open>
  The browser is the environment. Each field below is what one call, or one straight run
  of calls, of the browser engine does in a run: \<open>None\<close> or \<open>Inr\<close> when it returns,
  \<open>Some e\<close> or \<open>Inl e\<close> when it raises \<open>e\<close>. The session is a function of these answers
  and returns the calls it made, in order, with the way it ended.
\<close>

datatype type_attempt =
    LookupRaises exc        \<comment> \<open>\<open>query_selector\<close> or \<open>eval_on_selector_all\<close> raises\<close>
  | NoDropdown              \<comment> \<open>\<open>#EntitySubTypeCode\<close> is not on the page\<close>
  | Options "pystr list"    \<comment> \<open>the texts of its options\<close>

record setup_env =
  new_page :: "exc option"               \<comment> \<open>lines 95-101, before the \<open>try\<close>\<close>
  goto :: "exc option"                   \<comment> \<open>lines 120-121\<close>
  advanced :: "exc option"               \<comment> \<open>lines 132-141\<close>
  register_wait :: "exc option"          \<comment> \<open>line 147\<close>
  register_select :: "exc option"        \<comment> \<open>lines 148-149\<close>
  type_lookup :: "nat \<Rightarrow> type_attempt"   \<comment> \<open>lines 158-160, by attempt\<close>
  select_type :: "exc option"            \<comment> \<open>line 161\<close>
  status_filter :: "exc + bool"          \<comment> \<open>lines 176-179; whether \<open>#Status\<close> is there\<close>

record iter_env =
  captcha :: "exc option"                \<comment> \<open>lines 196-203\<close>
  fill :: "exc option"                   \<comment> \<open>line 207\<close>
  click :: "exc option"                  \<comment> \<open>lines 210-218\<close>
  wait_results :: "exc option"           \<comment> \<open>lines 221-224\<close>
  block_count :: "exc + nat"             \<comment> \<open>line 232\<close>
  set_page_size :: "exc option"          \<comment> \<open>line 235\<close>
  rewait :: "exc option"                 \<comment> \<open>lines 238-239\<close>
  content :: "exc + pystr"               \<comment> \<open>line 245\<close>
  banner :: "exc + pystr option"         \<comment> \<open>lines 262-263: the text of the first
                                              \<open>div.appPagerBanner\<close>, \<open>None\<close> when \<open>find\<close> returns \<open>None\<close>\<close>
  callback :: "exc option"               \<comment> \<open>line 278\<close>

datatype event =
    Navigate                \<comment> \<open>\<open>page.goto\<close>\<close>
  | SelectRegister          \<comment> \<open>\<open>select_option("#SourceAppCode", label="Corporations")\<close>\<close>
  | LookupType              \<comment> \<open>one look at the options of \<open>#EntitySubTypeCode\<close>\<close>
  | SelectType              \<comment> \<open>\<open>select_option("#EntitySubTypeCode", label=business_type)\<close>\<close>
  | SelectStatus            \<comment> \<open>\<open>select_option("#Status", label="Active")\<close>\<close>
  | Delay nat               \<comment> \<open>\<open>asyncio.sleep\<close>, in milliseconds\<close>
  | RandomDelay             \<comment> \<open>\<open>asyncio.sleep(random.uniform(2.0, 5.0))\<close>\<close>
  | Fill pystr              \<comment> \<open>\<open>page.fill("#QueryString", letter)\<close>\<close>
  | ClickSearch
  | SetPageSize             \<comment> \<open>\<open>select_option(".appSearchPageSize select", value="4")\<close>\<close>
  | Deliver search_result   \<comment> \<open>\<open>result_callback(result)\<close>\<close>
  | PageClose               \<comment> \<open>\<open>page.close()\<close>\<close>

definition caught :: "exc \<Rightarrow> bool" where
  \<comment> \<open>\<open>except Exception\<close>\<close>
  "caught e = (e = Error)"

definition uncaught :: "exc \<Rightarrow> exc option" where
  \<comment> \<open>what leaves a \<open>try ... except Exception\<close> whose body raised \<open>e\<close>\<close>
  "uncaught e = (if caught e then None else Some e)"

fun split_space :: "pystr \<Rightarrow> pystr list" where
  \<comment> \<open>\<open>s.split(" ")\<close>\<close>
  "split_space [] = [[]]"
| "split_space (c # s) =
     (if c = of_char CHR '' '' then [] # split_space s
      else (case split_space s of [] \<Rightarrow> [[c]] | t # ts \<Rightarrow> (c # t) # ts))"

definition businesses_count :: "iter_env \<Rightarrow> bool \<times> exc option" where
  \<comment> \<open>lines 260-267: \<open>businesses_count_200\<close>, and the exception that leaves the \<open>try\<close>.
      \<open>result_blocks.text\<close> on \<open>None\<close> raises AttributeError.\<close>
  "businesses_count env =
     (case banner env of
        Inl e \<Rightarrow> (False, uncaught e)
      | Inr None \<Rightarrow> (False, uncaught Error)
      | Inr (Some text) \<Rightarrow> (lit ''200'' \<in> set (split_space text), None))"

definition expand_page_size :: "iter_env \<Rightarrow> pystr \<Rightarrow> event list \<times> exc option" where
  \<comment> \<open>lines 229-242\<close>
  "expand_page_size env letter =
     (if letter = lit ''a'' then
        (case block_count env of
           Inl e \<Rightarrow> ([], uncaught e)
         | Inr n \<Rightarrow>
             if n > 0 then
               (case set_page_size env of
                  Some e \<Rightarrow> ([SetPageSize], uncaught e)
                | None \<Rightarrow>
                    (case rewait env of
                       Some e \<Rightarrow> ([SetPageSize, Delay 7000], uncaught e)
                     | None \<Rightarrow> ([SetPageSize, Delay 7000], None)))
             else ([], None))
      else ([], None))"

definition handler :: "exc \<Rightarrow> event list \<Rightarrow> codepoint list
    \<Rightarrow> event list \<times> codepoint list \<times> exc option" where
  \<comment> \<open>lines 283-287: an exception \<open>e\<close> leaves the body of the outer \<open>try\<close> after the calls
      \<open>tr\<close>, with the letters \<open>w\<close>\<close>
  "handler e tr w = (if caught e then (tr @ [Delay 5000], w, None) else (tr, w, Some e))"

text \<open>
  One pass of the loop body, lines 191-287: the calls made, the letters afterwards, and
  the exception that leaves the loop, if any.
\<close>

definition iteration :: "pystr \<Rightarrow> iter_env \<Rightarrow> codepoint list
    \<Rightarrow> event list \<times> codepoint list \<times> exc option" where
  "iteration business_type env search_word =
     (let letter = search_word in
      case captcha env of Some e \<Rightarrow> handler e [] search_word | None \<Rightarrow>
      case fill env of Some e \<Rightarrow> handler e [Fill letter] search_word | None \<Rightarrow>
      case click env of Some e \<Rightarrow> handler e [Fill letter, ClickSearch] search_word | None \<Rightarrow>
      let tr1 = [Fill letter, ClickSearch, Delay 2000] in
      case (case wait_results env of Some e \<Rightarrow> uncaught e | None \<Rightarrow> None) of
        Some e \<Rightarrow> handler e tr1 search_word | None \<Rightarrow>
      let (tr2, x2) = expand_page_size env letter in
      case x2 of Some e \<Rightarrow> handler e (tr1 @ tr2) search_word | None \<Rightarrow>
      case content env of Inl e \<Rightarrow> handler e (tr1 @ tr2) search_word | Inr html \<Rightarrow>
      let result = \<lparr>business_name = letter @ lit '' ('' @ business_type @ lit '')'',
                    html_content = html, success = True\<rparr> in
      let (businesses_count_200, x3) = businesses_count env in
      case x3 of Some e \<Rightarrow> handler e (tr1 @ tr2) search_word | None \<Rightarrow>
      let (search_word', x4) = enumerator_step businesses_count_200 search_word in
      case x4 of Some e \<Rightarrow> handler e (tr1 @ tr2) search_word' | None \<Rightarrow>
      case callback env of
        Some e \<Rightarrow> handler e (tr1 @ tr2 @ [Deliver result]) search_word'
      | None \<Rightarrow> (tr1 @ tr2 @ [Deliver result, RandomDelay], search_word', None))"

text \<open>
  The \<open>while\<close> loop of line 190. The source's loop has no bound; the list holds the
  browser's answers for as many passes as are looked at, and \<open>Pending\<close> is a loop still
  running when they are used up.
\<close>

datatype loop_end = Exhausted | Escaped exc | Pending "codepoint list"

fun search_loop :: "pystr \<Rightarrow> iter_env list \<Rightarrow> codepoint list \<Rightarrow> event list \<times> loop_end" where
  "search_loop business_type [] search_word =
     ([], if length search_word > 0 then Pending search_word else Exhausted)"
| "search_loop business_type (env # envs) search_word =
     (if length search_word > 0 then
        (case iteration business_type env search_word of
           (tr, search_word', Some e) \<Rightarrow> (tr, Escaped e)
         | (tr, search_word', None) \<Rightarrow>
             (let (tr', le) = search_loop business_type envs search_word' in (tr @ tr', le)))
      else ([], Exhausted))"

text \<open>Step 4, lines 157-165: \<open>for attempt in range(5)\<close>, from attempt \<open>i\<close> with \<open>n\<close> to go.\<close>

datatype type_result = Type_Set | Type_Not_Found | Type_Raised exc

definition offers :: "pystr \<Rightarrow> type_attempt \<Rightarrow> bool" where
  \<comment> \<open>the dropdown is there and \<open>any(business_type in opt for opt in options)\<close>\<close>
  "offers business_type a =
     (case a of Options opts \<Rightarrow> (\<exists>opt \<in> set opts. contains business_type opt) | _ \<Rightarrow> False)"

fun type_attempts :: "pystr \<Rightarrow> setup_env \<Rightarrow> nat \<Rightarrow> nat \<Rightarrow> event list \<times> type_result" where
  "type_attempts business_type env i 0 = ([], Type_Not_Found)"
| "type_attempts business_type env i (Suc n) =
     (case type_lookup env i of
        LookupRaises e \<Rightarrow> ([LookupType], Type_Raised e)
      | _ \<Rightarrow>
          if offers business_type (type_lookup env i) then
            (case select_type env of
               Some e \<Rightarrow> ([LookupType, SelectType], Type_Raised e)
             | None \<Rightarrow> ([LookupType, SelectType], Type_Set))
          else
            (let (tr, r) = type_attempts business_type env (Suc i) n
             in (LookupType # Delay 2000 # tr, r)))"

datatype session_end =
    Completed               \<comment> \<open>the loop ended and the body fell through\<close>
  | Aborted                 \<comment> \<open>a \<open>return\<close> during setup\<close>
  | Raised exc              \<comment> \<open>an exception left the function\<close>
  | Running "codepoint list" \<comment> \<open>the loop is still running\<close>

definition leave :: "exc \<Rightarrow> session_end" where
  \<comment> \<open>\<open>except Exception as e: ...; return\<close>\<close>
  "leave e = (if caught e then Aborted else Raised e)"

definition loop_left :: "loop_end \<Rightarrow> session_end" where
  \<comment> \<open>how the body is left once the loop is: nothing follows the loop in the \<open>try\<close>\<close>
  "loop_left le = (case le of Exhausted \<Rightarrow> Completed | Escaped e \<Rightarrow> Raised e | Pending w \<Rightarrow> Running w)"

text \<open>
  The body of the \<open>try\<close>, lines 104-287. The cookie banner of lines 124-128 sits in a bare
  \<open>except: pass\<close>, so nothing it does reaches the rest of the body.
\<close>

definition session_body :: "pystr \<Rightarrow> setup_env \<Rightarrow> iter_env list \<Rightarrow> event list \<times> session_end" where
  "session_body business_type env envs =
     (case goto env of Some e \<Rightarrow> ([Navigate], Raised e) | None \<Rightarrow>
      let tr0 = [Navigate, Delay 2000] in
      case (case advanced env of Some e \<Rightarrow> uncaught e | None \<Rightarrow> None) of
        Some e \<Rightarrow> (tr0, Raised e) | None \<Rightarrow>
      case register_wait env of Some e \<Rightarrow> (tr0, leave e) | None \<Rightarrow>
      case register_select env of Some e \<Rightarrow> (tr0 @ [SelectRegister], leave e) | None \<Rightarrow>
      let tr1 = tr0 @ [SelectRegister, Delay 3000] in
      let (tr2, found_type) = type_attempts business_type env 0 5 in
      case found_type of
        Type_Raised e \<Rightarrow> (tr1 @ tr2, leave e)
      | Type_Not_Found \<Rightarrow> (tr1 @ tr2, Aborted)
      | Type_Set \<Rightarrow>
      let (tr3, x3) = (case status_filter env of
                         Inl e \<Rightarrow> ([], uncaught e)
                       | Inr there \<Rightarrow> (if there then [Delay 500, SelectStatus] else [Delay 500], None)) in
      case x3 of Some e \<Rightarrow> (tr1 @ tr2 @ tr3, Raised e) | None \<Rightarrow>
      let (tr4, le) = search_loop business_type envs (lit ''a'') in
      (tr1 @ tr2 @ tr3 @ tr4, loop_left le))"

text \<open>
  The whole function: the page is made before the \<open>try\<close>, and the \<open>finally\<close> of lines
  289-290 runs when the body is left, however it is left.
\<close>

definition process_business_type_session ::
    "pystr \<Rightarrow> setup_env \<Rightarrow> iter_env list \<Rightarrow> event list \<times> session_end" where
  "process_business_type_session business_type env envs =
     (case new_page env of
        Some e \<Rightarrow> ([], Raised e)
      | None \<Rightarrow>
          (case session_body business_type env envs of
             (tr, Running w) \<Rightarrow> (tr, Running w)
           | (tr, left) \<Rightarrow> (tr @ [PageClose], left)))"

section \<open>Readings of a run\<close>

text \<open>The saturation signal of a pass: \<open>businesses_count_200\<close> as lines 260-267 leave it.\<close>

definition saturated :: "iter_env \<Rightarrow> bool" where
  "saturated env = fst (businesses_count env)"

text \<open>
  A pass in which no exception reaches the handler of lines 283-287 or leaves the loop:
  the calls outside an inner \<open>try\<close> return, and the ones inside raise at most \<open>Error\<close>.
\<close>

definition passes :: "iter_env \<Rightarrow> bool" where
  "passes env \<longleftrightarrow>
     captcha env = None \<and> fill env = None \<and> click env = None
     \<and> wait_results env \<noteq> Some Interrupt
     \<and> block_count env \<noteq> Inl Interrupt \<and> set_page_size env \<noteq> Some Interrupt
     \<and> rewait env \<noteq> Some Interrupt
     \<and> \<not> isl (content env) \<and> banner env \<noteq> Inl Interrupt \<and> callback env = None"

text \<open>The terms filled into the search field and the results handed to the callback, in order.\<close>

definition searched :: "event list \<Rightarrow> pystr list" where
  "searched tr = [t. Fill t \<leftarrow> tr]"

definition delivered :: "event list \<Rightarrow> search_result list" where
  "delivered tr = [r. Deliver r \<leftarrow> tr]"

text \<open>The calls a pass on the letters \<open>w\<close> can have made before it builds the result.\<close>

definition pre_events :: "iter_env \<Rightarrow> codepoint list \<Rightarrow> event set" where
  "pre_events env w = {Fill w, ClickSearch, Delay 2000} \<union> set (fst (expand_page_size env w))"

text \<open>Results for the sink: an empty page in either wording, a failed search and a page with a
  hit.\<close>

definition res_empty :: search_result where
  "res_empty = \<lparr>business_name = lit ''a (X)'', html_content = lit ''<p>No results found</p>'', success = True\<rparr>"

definition res_failed :: search_result where
  "res_failed = \<lparr>business_name = lit ''a (X)'', html_content = lit ''<p>No results found</p>'', success = False\<rparr>"

definition res_no_matches :: search_result where
  "res_no_matches = \<lparr>business_name = lit ''q (X)'', html_content = lit ''<p>No matches found</p>'', success = True\<rparr>"

definition res_found :: search_result where
  "res_found = \<lparr>business_name = lit ''a (X)'', html_content = lit ''<div>Acme</div>'', success = True\<rparr>"

text \<open>The calls of the setup, lines 118-184.\<close>

definition setup_events :: "event set" where
  "setup_events = {Navigate, SelectRegister, LookupType, SelectType, SelectStatus,
                   Delay 2000, Delay 3000, Delay 500}"

text \<open>A setup that gets as far as the search loop: no fatal failure and the business type set.\<close>

definition reaches_loop :: "pystr \<Rightarrow> setup_env \<Rightarrow> bool" where
  "reaches_loop business_type env \<longleftrightarrow>
     new_page env = None \<and> goto env = None \<and> advanced env \<noteq> Some Interrupt
     \<and> register_wait env = None \<and> register_select env = None
     \<and> snd (type_attempts business_type env 0 5) = Type_Set
     \<and> status_filter env \<noteq> Inl Interrupt"

text \<open>
  Browsers to run the session on. \<open>quiet_pass b\<close> is a pass in which every call returns,
  the page shows twenty result blocks and the banner lookup gives \<open>b\<close>; \<open>ready_setup\<close> is
  a setup in which every control is there and the dropdown offers the business type.
\<close>

definition quiet_pass :: "pystr option \<Rightarrow> iter_env" where
  "quiet_pass b =
     \<lparr>captcha = None, fill = None, click = None, wait_results = None, block_count = Inr 20,
      set_page_size = None, rewait = None, content = Inr (lit ''<html>''), banner = Inr b,
      callback = None\<rparr>"

definition few :: "pystr option" where
  "few = Some (lit ''Showing 1 to 20 of 20'')"

definition full :: "pystr option" where
  "full = Some (lit ''Showing 1 to 200 of 1234'')"

definition nfp :: pystr where
  "nfp = lit ''Not-for-Profit Corporation''"

definition ready_setup :: setup_env where
  "ready_setup =
     \<lparr>new_page = None, goto = None, advanced = None, register_wait = None,
      register_select = None, type_lookup = (\<lambda>i. Options [lit ''Co-operative Non-Share'', nfp]),
      select_type = None, status_filter = Inr True\<rparr>"

text \<open>
  \<open>absent_setup\<close> is a setup whose dropdown never offers the business type: it is missing
  on every other look and lists another type on the rest. \<open>offline_setup\<close> is one whose
  navigation raises.
\<close>

definition absent_setup :: setup_env where
  "absent_setup =
     ready_setup\<lparr>type_lookup :=
       (\<lambda>i. if even i then NoDropdown else Options [lit ''Co-operative Non-Share''])\<rparr>"

definition offline_setup :: setup_env where
  "offline_setup = ready_setup\<lparr>goto := Some Error\<rparr>"






definition stuck_pass :: iter_env where
  "stuck_pass = (quiet_pass few)\<lparr>fill := Some Error\<rparr>"

section \<open>Properties of the enumerator\<close>

lemma step_saturated: "enumerator_step True w = (w @ [letter_a], None)"
  by (simp add: enumerator_step_def)

lemma pop_z_rev: "pop_z w = rev (dropWhile (\<lambda>c. c = letter_z) (rev w))"
proof (induction w rule: pop_z.induct)
  case (1 w)
  show ?case
  proof (cases "length w > 0 \<and> last w = letter_z")
    case True
    then obtain u where u: "w = u @ [letter_z]"
      by (metis append_butlast_last_id length_greater_0_conv)
    from True 1 have "pop_z w = rev (dropWhile (\<lambda>c. c = letter_z) (rev (butlast w)))"
      by (subst pop_z.simps) simp
    then show ?thesis using u by simp
  next
    case False
    then have "pop_z w = w" by (subst pop_z.simps) auto
    moreover have "rev (dropWhile (\<lambda>c. c = letter_z) (rev w)) = w"
      using False by (cases w rule: rev_cases) auto
    ultimately show ?thesis by simp
  qed
qed

lemma pop_z_decomp: "\<exists>k. w = pop_z w @ replicate k letter_z"
proof (induction w rule: pop_z.induct)
  case (1 w)
  show ?case
  proof (cases "length w > 0 \<and> last w = letter_z")
    case True
    then have w: "w = butlast w @ [letter_z]"
      by (metis append_butlast_last_id length_greater_0_conv)
    from True have p: "pop_z w = pop_z (butlast w)"
      by (subst pop_z.simps) simp
    from 1 True obtain k where k: "butlast w = pop_z (butlast w) @ replicate k letter_z"
      by blast
    from w k have "w = (pop_z (butlast w) @ replicate k letter_z) @ [letter_z]"
      by metis
    then have "w = pop_z w @ replicate (Suc k) letter_z"
      by (simp add: p replicate_append_same)
    then show ?thesis ..
  next
    case False
    then have "pop_z w = w" by (subst pop_z.simps) auto
    then have "w = pop_z w @ replicate 0 letter_z" by simp
    then show ?thesis ..
  qed
qed

lemma pop_z_last: "pop_z w \<noteq> [] \<Longrightarrow> last (pop_z w) \<noteq> letter_z"
  by (induction w rule: pop_z.induct) (subst pop_z.simps, subst (asm) (2) pop_z.simps, auto split: if_splits)

lemma pop_z_empty_iff: "pop_z w = [] \<longleftrightarrow> set w \<subseteq> {letter_z}"
  by (auto simp: pop_z_rev dropWhile_eq_Nil_conv)

lemma less_common_prefix: "(p @ xs < p @ ys) = (xs < (ys::nat list))"
  by (induction p) auto

lemma bump_greater: "p @ c # zs < p @ [Suc c]"
  by (simp add: less_common_prefix)

lemma step_unsaturated:
  assumes "pop_z w = p" and "p \<noteq> []" and "last p + 1 < 0x110000"
  shows "enumerator_step False w = (butlast p @ [last p + 1], None)"
proof -
  have "p[length p - 1 := last p + 1] = butlast p @ [last p + 1]"
    using assms(2) by (induction p rule: rev_induct) simp_all
  with assms show ?thesis
    by (simp add: enumerator_step_def py_chr_def Let_def)
qed

lemma step_exhausted:
  assumes "pop_z w = []"
  shows "enumerator_step False w = ([], None)"
  using assms by (simp add: enumerator_step_def)

lemma lowercase_pop_z: "lowercase w \<Longrightarrow> lowercase (pop_z w)"
proof -
  obtain k where "w = pop_z w @ replicate k letter_z" using pop_z_decomp by blast
  then have "set (pop_z w) \<subseteq> set w" by (metis set_append Un_upper1)
  then show "lowercase w \<Longrightarrow> lowercase (pop_z w)" by (auto simp: lowercase_def)
qed

lemma lowercase_last_bump:
  assumes "lowercase p" "p \<noteq> []" "last p \<noteq> letter_z"
  shows "last p + 1 < 0x110000 \<and> lowercase (butlast p @ [last p + 1])"
proof -
  from assms(2) have "last p \<in> set p" by simp
  with assms(1) have "letter_a \<le> last p \<and> last p \<le> letter_z" by (simp add: lowercase_def)
  with assms(3) have b: "letter_a \<le> last p + 1 \<and> last p + 1 \<le> letter_z" by simp
  then have "last p + 1 < 0x110000" by (simp add: letter_z_def)
  moreover have "lowercase (butlast p)"
    using assms(1) by (auto simp: lowercase_def dest: in_set_butlastD)
  ultimately show ?thesis using b by (simp add: lowercase_def)
qed

text \<open>
  C1: for every non-empty term of lowercase letters, the step with saturated = false pops
  all trailing \<open>'z'\<close> letters and then bumps the new last letter by one alphabet position;
  the term it gives is strictly greater than the previous one in dictionary order; and it
  gives none exactly when the previous term was all \<open>'z'\<close>. \<open>["a","z"]\<close> advances to \<open>["b"]\<close>.
\<close>

theorem advance_unsaturated_increments:
  assumes "w \<noteq> []" and "lowercase w"
  shows "(\<exists>p k. w = p @ replicate k letter_z \<and> (p = [] \<or> last p \<noteq> letter_z)
            \<and> enumerator_step False w = (if p = [] then [] else butlast p @ [last p + 1], None))
       \<and> (\<forall>w'. advance False w = Some w' \<longrightarrow> w < w' \<and> lowercase w')
       \<and> (advance False w = None \<longleftrightarrow> (\<forall>c \<in> set w. c = letter_z))
       \<and> advance False (lit ''az'') = Some (lit ''b'')"
proof -
  define p where "p = pop_z w"
  obtain k where k: "w = p @ replicate k letter_z"
    unfolding p_def using pop_z_decomp by blast
  have lastp: "p = [] \<or> last p \<noteq> letter_z"
    unfolding p_def using pop_z_last by blast
  have lp: "lowercase p"
    unfolding p_def using assms(2) by (rule lowercase_pop_z)
  have step: "enumerator_step False w = (if p = [] then [] else butlast p @ [last p + 1], None)"
  proof (cases "p = []")
    case True
    then show ?thesis using step_exhausted [of w] by (simp add: p_def)
  next
    case False
    with lastp lp have "last p + 1 < 0x110000" using lowercase_last_bump by blast
    with False show ?thesis using step_unsaturated [of w p] by (simp add: p_def)
  qed
  have adv: "advance False w = (if p = [] then None else Some (butlast p @ [last p + 1]))"
    by (simp add: advance_def step)
  have greater: "w < butlast p @ [last p + 1]" if "p \<noteq> []"
  proof -
    from that have "p = butlast p @ [last p]" by simp
    with k have "w = butlast p @ last p # replicate k letter_z" by (metis append.assoc append_Cons append_Nil)
    then show ?thesis using bump_greater [of "butlast p" "last p" "replicate k letter_z"] by simp
  qed
  have low: "lowercase (butlast p @ [last p + 1])" if "p \<noteq> []"
    using that lastp lp lowercase_last_bump by blast
  have none: "p = [] \<longleftrightarrow> (\<forall>c \<in> set w. c = letter_z)"
    unfolding p_def using pop_z_empty_iff [of w] by auto
  have ex: "advance False (lit ''az'') = Some (lit ''b'')"
    by (simp add: advance_def enumerator_step_def lit_def pop_z.simps letter_z_def py_chr_def)
  from k lastp step have first: "\<exists>p k. w = p @ replicate k letter_z \<and> (p = [] \<or> last p \<noteq> letter_z)
            \<and> enumerator_step False w = (if p = [] then [] else butlast p @ [last p + 1], None)"
    by blast
  from adv greater low have second: "\<forall>w'. advance False w = Some w' \<longrightarrow> w < w' \<and> lowercase w'"
    by (auto split: if_splits)
  from adv none have third: "advance False w = None \<longleftrightarrow> (\<forall>c \<in> set w. c = letter_z)"
    by (auto split: if_splits)
  from first second third ex show ?thesis by blast
qed

theorem advance_unsaturated_increments_witness:
  "lit ''abzz'' \<noteq> [] \<and> lowercase (lit ''abzz'') \<and> advance False (lit ''abzz'') = Some (lit ''ac'')
   \<and> lit ''abzz'' < lit ''ac''"
proof -
  have h1: "lit ''abzz'' \<noteq> []" by (simp add: lit_def)
  have h2: "lowercase (lit ''abzz'')" by (simp add: lit_def lowercase_def letter_a_def letter_z_def)
  have v: "advance False (lit ''abzz'') = Some (lit ''ac'')"
    by (simp add: advance_def enumerator_step_def lit_def pop_z.simps letter_z_def py_chr_def)
  from advance_unsaturated_increments [OF h1 h2] v have "lit ''abzz'' < lit ''ac''" by simp
  with h1 h2 v show ?thesis by simp
qed

text \<open>
  C2: advancing with saturated = true returns a term one letter longer than the previous
  one, ending in \<open>'a'\<close>, of which the previous term is a strict prefix; \<open>["a"]\<close> advances
  to \<open>["a","a"]\<close>.
\<close>

theorem advance_saturated_descends:
  "(\<exists>w'. advance True w = Some w' \<and> length w' = length w + 1 \<and> last w' = letter_a
      \<and> strict_prefix w w'
      \<and> snd (enumerator_step True w) = None)
   \<and> advance True (lit ''a'') = Some (lit ''aa'')"
  by (simp add: advance_def step_saturated lit_def letter_a_def strict_prefix_def)

theorem advance_saturated_descends_witness:
  "advance True (lit ''ab'') = Some (lit ''aba'') \<and> strict_prefix (lit ''ab'') (lit ''aba'')"
  using advance_saturated_descends [of "lit ''ab''"]
  by (simp add: advance_def step_saturated lit_def letter_a_def)

section \<open>The sink's classification\<close>

lemma contains_iff: "contains sub s \<longleftrightarrow> (\<exists>p q. s = p @ sub @ q)"
proof (induction s)
  case Nil
  then show ?case by auto
next
  case (Cons c s)
  show ?case
  proof
    assume "contains sub (c # s)"
    then consider "prefix sub (c # s)" | "contains sub s" by auto
    then show "\<exists>p q. c # s = p @ sub @ q"
    proof cases
      case 1
      then obtain q where "c # s = sub @ q" by (auto simp: prefix_def)
      then have "c # s = [] @ sub @ q" by simp
      then show ?thesis by blast
    next
      case 2
      with Cons obtain p q where "s = p @ sub @ q" by blast
      then have "c # s = (c # p) @ sub @ q" by simp
      then show ?thesis by blast
    qed
  next
    assume "\<exists>p q. c # s = p @ sub @ q"
    then obtain p q where pq: "c # s = p @ sub @ q" by blast
    show "contains sub (c # s)"
    proof (cases p)
      case Nil
      with pq have "prefix sub (c # s)" by (simp add: prefix_def)
      then show ?thesis by simp
    next
      case (Cons a p')
      with pq have "s = p' @ sub @ q" by simp
      with Cons.IH have "contains sub s" by blast
      then show ?thesis by simp
    qed
  qed
qed

text \<open>
  What lines 319-320 compute, with the one phrase the sink looks for.
\<close>

lemma save_result_classification:
  "(success res \<and> contains (lit ''No results found'') (html_content res)
      \<longrightarrow> save_result_status res = No_Data)
   \<and> (\<not> success res \<longrightarrow> save_result_status res = Error_Status)
   \<and> (success res \<and> \<not> contains (lit ''No results found'') (html_content res)
      \<longrightarrow> save_result_status res = Found)"
  by (simp add: save_result_status_def)

lemma save_result_classification_examples:
  "success res_empty \<and> contains (lit ''No results found'') (html_content res_empty)
     \<and> save_result_status res_empty = No_Data
   \<and> \<not> success res_failed \<and> save_result_status res_failed = Error_Status
   \<and> success res_found \<and> \<not> contains (lit ''No results found'') (html_content res_found)
     \<and> save_result_status res_found = Found"
proof -
  have e: "success res_empty \<and> contains (lit ''No results found'') (html_content res_empty)"
    by (simp add: res_empty_def lit_def)
  have f: "\<not> success res_failed" by (simp add: res_failed_def)
  have g: "success res_found \<and> \<not> contains (lit ''No results found'') (html_content res_found)"
    by (simp add: res_found_def lit_def)
  from e f g save_result_classification [of res_empty] save_result_classification [of res_failed]
    save_result_classification [of res_found]
  show ?thesis by blast
qed

text \<open>
  C7: a result with success = true whose content holds the no-results marker should be
  classified No-Data, not Found. The session takes both \<open>"No results found"\<close> and
  \<open>"No matches found"\<close> for an empty page; the sink looks for the first only, and
  classifies a successful result whose page says \<open>"No matches found"\<close> as Found.
\<close>

theorem sink_misses_no_matches:
  "success res_no_matches \<and> no_results_page (html_content res_no_matches)
   \<and> save_result_status res_no_matches = Found"
  by (simp add: res_no_matches_def no_results_page_def save_result_status_def lit_def)

section \<open>One pass of the loop\<close>

lemma uncaught_None: "uncaught e = None \<longleftrightarrow> e = Error"
  by (cases e) (simp_all add: uncaught_def caught_def)

lemma expand_events: "set (fst (expand_page_size env letter)) \<subseteq> {SetPageSize, Delay 7000}"
  by (auto simp: expand_page_size_def split: sum.splits option.splits)


lemma iteration_cases:
  obtains (handled) e tr where "iteration bt env w = handler e tr w"
      "set tr \<subseteq> pre_events env w"
  | (step_raised) e tr where
      "iteration bt env w = handler e tr (fst (enumerator_step (saturated env) w))"
      "snd (enumerator_step (saturated env) w) = Some e"
      "set tr \<subseteq> pre_events env w"
  | (callback_raised) e r where
      "iteration bt env w
         = handler e ([Fill w, ClickSearch, Delay 2000] @ fst (expand_page_size env w) @ [Deliver r])
             (fst (enumerator_step (saturated env) w))"
      "callback env = Some e" "snd (enumerator_step (saturated env) w) = None"
  | (passed) r where
      "iteration bt env w
         = ([Fill w, ClickSearch, Delay 2000] @ fst (expand_page_size env w) @ [Deliver r, RandomDelay],
            fst (enumerator_step (saturated env) w), None)"
      "snd (enumerator_step (saturated env) w) = None"
proof (cases "captcha env")
  case (Some e)
  then have "iteration bt env w = handler e [] w" by (simp add: iteration_def)
  moreover have "set [] \<subseteq> pre_events env w" by simp
  ultimately show thesis by (rule handled)
next
  case c: None
  show thesis
  proof (cases "fill env")
    case (Some e)
    with c have "iteration bt env w = handler e [Fill w] w" by (simp add: iteration_def)
    moreover have "set [Fill w] \<subseteq> pre_events env w" by (simp add: pre_events_def)
    ultimately show thesis by (rule handled)
  next
    case f: None
    show thesis
    proof (cases "click env")
      case (Some e)
      with c f have "iteration bt env w = handler e [Fill w, ClickSearch] w" by (simp add: iteration_def)
      moreover have "set [Fill w, ClickSearch] \<subseteq> pre_events env w" by (simp add: pre_events_def)
      ultimately show thesis by (rule handled)
    next
      case k: None
      let ?tr1 = "[Fill w, ClickSearch, Delay 2000]"
      have s1: "set ?tr1 \<subseteq> pre_events env w" by (simp add: pre_events_def)
      show thesis
      proof (cases "case wait_results env of Some e \<Rightarrow> uncaught e | None \<Rightarrow> None")
        case (Some e)
        with c f k have "iteration bt env w = handler e ?tr1 w" by (simp add: iteration_def)
        then show thesis using s1 by (rule handled)
      next
        case wr: None
        obtain tr2 x2 where x: "expand_page_size env w = (tr2, x2)" by (cases "expand_page_size env w")
        let ?tr = "?tr1 @ tr2"
        have s2: "set ?tr \<subseteq> pre_events env w" using x by (auto simp: pre_events_def)
        show thesis
        proof (cases x2)
          case (Some e)
          with c f k wr x have "iteration bt env w = handler e ?tr w" by (simp add: iteration_def)
          then show thesis using s2 by (rule handled)
        next
          case x2n: None
          show thesis
          proof (cases "content env")
            case (Inl e)
            with c f k wr x x2n have "iteration bt env w = handler e ?tr w" by (simp add: iteration_def)
            then show thesis using s2 by (rule handled)
          next
            case (Inr html)
            obtain b x3 where bc: "businesses_count env = (b, x3)" by (cases "businesses_count env")
            then have sat: "saturated env = b" by (simp add: saturated_def)
            show thesis
            proof (cases x3)
              case (Some e)
              with c f k wr x x2n Inr bc have "iteration bt env w = handler e ?tr w"
                by (simp add: iteration_def)
              then show thesis using s2 by (rule handled)
            next
              case x3n: None
              obtain w' x4 where st: "enumerator_step b w = (w', x4)" by (cases "enumerator_step b w")
              show thesis
              proof (cases x4)
                case (Some e)
                with c f k wr x x2n Inr bc x3n st
                have "iteration bt env w = handler e ?tr (fst (enumerator_step (saturated env) w))"
                  by (simp add: iteration_def sat)
                moreover have "snd (enumerator_step (saturated env) w) = Some e"
                  using st sat Some by simp
                ultimately show thesis using s2 by (rule step_raised)
              next
                case x4n: None
                then have sn: "snd (enumerator_step (saturated env) w) = None"
                  using st sat by simp
                let ?r = "\<lparr>business_name = w @ lit '' ('' @ bt @ lit '')'', html_content = html,
                          success = True\<rparr>"
                show thesis
                proof (cases "callback env")
                  case (Some e)
                  with c f k wr x x2n Inr bc x3n st x4n
                  have "iteration bt env w
                      = handler e (?tr1 @ fst (expand_page_size env w) @ [Deliver ?r])
                          (fst (enumerator_step (saturated env) w))"
                    by (simp add: iteration_def sat)
                  then show thesis using Some sn by (rule callback_raised)
                next
                  case None
                  with c f k wr x x2n Inr bc x3n st x4n
                  have "iteration bt env w
                      = (?tr1 @ fst (expand_page_size env w) @ [Deliver ?r, RandomDelay],
                         fst (enumerator_step (saturated env) w), None)"
                    by (simp add: iteration_def sat)
                  then show thesis using sn by (rule passed)
                qed
              qed
            qed
          qed
        qed
      qed
    qed
  qed
qed

lemma letter_a_le_z: "letter_a \<le> letter_z"
  by (simp add: letter_a_def letter_z_def)

lemma less_snoc: "w < w @ [c :: nat]"
  by (induction w) simp_all

lemma unsaturated_step_lowercase:
  assumes "lowercase w"
  shows "enumerator_step False w
           = (if pop_z w = [] then [] else butlast (pop_z w) @ [last (pop_z w) + 1], None)"
proof (cases "pop_z w = []")
  case True
  then show ?thesis using step_exhausted [of w] by simp
next
  case False
  have "lowercase (pop_z w)" using assms by (rule lowercase_pop_z)
  moreover have "last (pop_z w) \<noteq> letter_z" using False by (rule pop_z_last)
  ultimately have "last (pop_z w) + 1 < 0x110000"
    using False lowercase_last_bump by blast
  with False show ?thesis using step_unsaturated [of w "pop_z w"] by simp
qed

lemma step_lowercase:
  assumes "lowercase w"
  shows "snd (enumerator_step s w) = None" and "lowercase (fst (enumerator_step s w))"
proof -
  show "snd (enumerator_step s w) = None"
    using assms by (cases s) (simp_all add: step_saturated unsaturated_step_lowercase)
  show "lowercase (fst (enumerator_step s w))"
  proof (cases s)
    case True
    then show ?thesis using assms letter_a_le_z by (simp add: step_saturated lowercase_def)
  next
    case False
    show ?thesis
    proof (cases "pop_z w = []")
      case True
      with False assms show ?thesis by (simp add: unsaturated_step_lowercase lowercase_def)
    next
      case nonempty: False
      have "lowercase (pop_z w)" using assms by (rule lowercase_pop_z)
      moreover have "last (pop_z w) \<noteq> letter_z" using nonempty by (rule pop_z_last)
      ultimately have "lowercase (butlast (pop_z w) @ [last (pop_z w) + 1])"
        using nonempty lowercase_last_bump by blast
      with False nonempty assms show ?thesis by (simp add: unsaturated_step_lowercase)
    qed
  qed
qed

lemma step_increases:
  assumes "lowercase w" and "fst (enumerator_step s w) \<noteq> []"
  shows "w < fst (enumerator_step s w)"
proof (cases s)
  case True
  then show ?thesis by (simp add: step_saturated less_snoc)
next
  case False
  let ?p = "pop_z w"
  from assms False have ne: "?p \<noteq> []"
    by (auto simp: unsaturated_step_lowercase split: if_splits)
  obtain k where k: "w = ?p @ replicate k letter_z" using pop_z_decomp by blast
  from ne have "?p = butlast ?p @ [last ?p]" by simp
  with k have "w = butlast ?p @ last ?p # replicate k letter_z"
    by (metis append.assoc append_Cons append_Nil)
  then have "w < butlast ?p @ [last ?p + 1]"
    using bump_greater [of "butlast ?p" "last ?p" "replicate k letter_z"] by simp
  with False ne assms show ?thesis by (simp add: unsaturated_step_lowercase)
qed

lemma step_empty:
  assumes "fst (enumerator_step s w) = []"
  shows "\<not> s \<and> (\<forall>c \<in> set w. c = letter_z)"
proof -
  from assms have ns: "\<not> s" by (cases s) (simp_all add: step_saturated)
  have "pop_z w = []"
  proof (rule ccontr)
    assume "pop_z w \<noteq> []"
    with assms ns show False
      by (auto simp: enumerator_step_def Let_def split: sum.splits)
  qed
  with ns show ?thesis using pop_z_empty_iff [of w] by auto
qed

lemma handler_trace: "set (fst (handler e tr w)) \<subseteq> set tr \<union> {Delay 5000}"
  by (auto simp: handler_def)

lemma handler_state: "fst (snd (handler e tr w)) = w"
  by (simp add: handler_def)

lemma pre_events_Fill: "Fill t \<in> pre_events env w \<Longrightarrow> t = w"
  using expand_events [of env w] by (auto simp: pre_events_def)

lemma pre_events_Deliver: "Deliver r \<notin> pre_events env w"
  using expand_events [of env w] by (auto simp: pre_events_def)


lemma iteration_trace:
  "set (fst (iteration bt env w)) \<subseteq> pre_events env w \<union> {Delay 5000, RandomDelay} \<union> range Deliver"
proof (cases bt env w rule: iteration_cases)
  case (handled e tr)
  then show ?thesis using handler_trace [of e tr w] by auto
next
  case (step_raised e tr)
  then show ?thesis
    using handler_trace [of e tr "fst (enumerator_step (saturated env) w)"] by auto
next
  case (callback_raised e r)
  let ?tr = "[Fill w, ClickSearch, Delay 2000] @ fst (expand_page_size env w) @ [Deliver r]"
  have "set ?tr \<subseteq> pre_events env w \<union> range Deliver" by (auto simp: pre_events_def)
  with callback_raised show ?thesis
    using handler_trace [of e ?tr "fst (enumerator_step (saturated env) w)"] by auto
next
  case (passed r)
  then show ?thesis by (auto simp: pre_events_def)
qed

lemma iteration_Fill:
  assumes "Fill t \<in> set (fst (iteration bt env w))"
  shows "t = w"
proof -
  from assms iteration_trace [of bt env w] have "Fill t \<in> pre_events env w" by auto
  then show ?thesis by (rule pre_events_Fill)
qed


lemma iteration_state:
  "fst (snd (iteration bt env w)) = w
   \<or> fst (snd (iteration bt env w)) = fst (enumerator_step (saturated env) w)"
  by (cases bt env w rule: iteration_cases) (simp_all add: handler_state)

lemma iteration_Deliver:
  assumes "Deliver r \<in> set (fst (iteration bt env w))"
  shows "fst (snd (iteration bt env w)) = fst (enumerator_step (saturated env) w)
         \<and> snd (enumerator_step (saturated env) w) = None"
proof (cases bt env w rule: iteration_cases)
  case (handled e tr)
  with assms handler_trace [of e tr w] have "Deliver r \<in> pre_events env w" by auto
  then show ?thesis by (simp add: pre_events_Deliver)
next
  case (step_raised e tr)
  with assms handler_trace [of e tr "fst (enumerator_step (saturated env) w)"]
  have "Deliver r \<in> pre_events env w" by auto
  then show ?thesis by (simp add: pre_events_Deliver)
next
  case (callback_raised e r)
  then show ?thesis by (simp add: handler_state)
next
  case (passed r)
  then show ?thesis by simp
qed

section \<open>The loop\<close>

lemma searched_Nil [simp]: "searched [] = []"
  by (simp add: searched_def)

lemma searched_append [simp]: "searched (xs @ ys) = searched xs @ searched ys"
  by (simp add: searched_def)

lemma searched_Cons: "searched (ev # tr) = (case ev of Fill t \<Rightarrow> [t] | _ \<Rightarrow> []) @ searched tr"
  by (cases ev) (simp_all add: searched_def)

lemma searched_expand [simp]: "searched (fst (expand_page_size env w)) = []"
  by (auto simp: expand_page_size_def searched_Cons split: sum.splits option.splits)

lemma expand_passes: "passes env \<Longrightarrow> snd (expand_page_size env w) = None"
  by (auto simp: passes_def expand_page_size_def uncaught_None split: sum.splits option.splits
      intro: exc.exhaust)

lemma count_passes: "passes env \<Longrightarrow> snd (businesses_count env) = None"
  by (auto simp: passes_def businesses_count_def uncaught_None split: sum.splits option.splits
      intro: exc.exhaust)

lemma iteration_passes:
  assumes "passes env" and "lowercase w"
  shows "\<exists>r. iteration bt env w
           = ([Fill w, ClickSearch, Delay 2000] @ fst (expand_page_size env w) @ [Deliver r, RandomDelay],
              fst (enumerator_step (saturated env) w), None)"
proof -
  from assms(1) have c: "captcha env = None" "fill env = None" "click env = None"
      "callback env = None"
    by (simp_all add: passes_def)
  from assms(1) have "wait_results env \<noteq> Some Interrupt" by (simp add: passes_def)
  then have wr: "(case wait_results env of Some e \<Rightarrow> uncaught e | None \<Rightarrow> None) = None"
    by (cases "wait_results env") (auto simp: uncaught_None intro: exc.exhaust)
  obtain tr2 where ex: "expand_page_size env w = (tr2, None)"
    using expand_passes [OF assms(1), of w] by (cases "expand_page_size env w") simp
  from assms(1) obtain html where h: "content env = Inr html"
    by (cases "content env") (simp_all add: passes_def)
  obtain b where bc: "businesses_count env = (b, None)"
    using count_passes [OF assms(1)] by (cases "businesses_count env") simp
  then have sat: "saturated env = b" by (simp add: saturated_def)
  obtain w' where st: "enumerator_step b w = (w', None)"
    using step_lowercase(1) [OF assms(2), of b] by (cases "enumerator_step b w") simp
  from c wr ex h bc st show ?thesis
    by (simp add: iteration_def sat)
qed

lemma loop_passes:
  assumes "\<forall>env \<in> set envs. passes env" and "lowercase w"
  shows "searched (fst (search_loop bt envs w)) = fst (enumeration (map saturated envs) w)
       \<and> snd (search_loop bt envs w)
           = (let wf = snd (enumeration (map saturated envs) w)
              in if length wf > 0 then Pending wf else Exhausted)"
  using assms
proof (induction envs arbitrary: w)
  case Nil
  then show ?case by simp
next
  case (Cons env envs)
  show ?case
  proof (cases "length w > 0")
    case False
    then show ?thesis by simp
  next
    case True
    from Cons.prems have p: "passes env" and ps: "\<forall>env \<in> set envs. passes env" by simp_all
    let ?w' = "fst (enumerator_step (saturated env) w)"
    obtain r where it: "iteration bt env w
           = ([Fill w, ClickSearch, Delay 2000] @ fst (expand_page_size env w) @ [Deliver r, RandomDelay],
              ?w', None)"
      using iteration_passes [OF p Cons.prems(2)] by blast
    have "lowercase ?w'" using Cons.prems(2) by (rule step_lowercase(2))
    with Cons.IH ps have ih: "searched (fst (search_loop bt envs ?w')) = fst (enumeration (map saturated envs) ?w')
       \<and> snd (search_loop bt envs ?w')
           = (let wf = snd (enumeration (map saturated envs) ?w')
              in if length wf > 0 then Pending wf else Exhausted)"
      by blast
    obtain tr' le where sl: "search_loop bt envs ?w' = (tr', le)" by (cases "search_loop bt envs ?w'")
    obtain ts wf where en: "enumeration (map saturated envs) ?w' = (ts, wf)"
      by (cases "enumeration (map saturated envs) ?w'")
    from True it sl en ih show ?thesis
      by (simp add: searched_Cons)
  qed
qed

lemma enumeration_pending:
  "k + n \<le> 25 \<Longrightarrow> enumeration (replicate n False) [letter_a + k]
     = (map (\<lambda>i. [letter_a + i]) [k..<k + n], [letter_a + k + n])"
proof (induction n arbitrary: k)
  case 0
  then show ?case by simp
next
  case (Suc n)
  then have "pop_z [letter_a + k] = [letter_a + k]"
    by (subst pop_z.simps) (simp add: letter_a_def letter_z_def)
  then have st: "enumerator_step False [letter_a + k] = ([letter_a + Suc k], None)"
    using Suc.prems by (simp add: enumerator_step_def py_chr_def letter_a_def)
  from Suc.prems have "Suc k + n \<le> 25" by simp
  then have "enumeration (replicate n False) [letter_a + Suc k]
     = (map (\<lambda>i. [letter_a + i]) [Suc k..<Suc k + n], [letter_a + Suc k + n])"
    by (rule Suc.IH)
  with st show ?case by (simp add: upt_conv_Cons)
qed

lemma enumeration_exhausted:
  "k \<le> 25 \<Longrightarrow> 26 - k \<le> n \<Longrightarrow> enumeration (replicate n False) [letter_a + k]
     = (map (\<lambda>i. [letter_a + i]) [k..<26], [])"
proof (induction n arbitrary: k)
  case 0
  then show ?case by simp
next
  case (Suc n)
  show ?case
  proof (cases "k = 25")
    case True
    have "pop_z [letter_a + 25] = []"
      by (subst pop_z.simps, subst pop_z.simps) (simp add: letter_a_def letter_z_def)
    then have "enumerator_step False [letter_a + k] = ([], None)"
      using True by (simp add: enumerator_step_def)
    moreover have "enumeration (replicate n False) [] = ([], [])"
      by (cases n) simp_all
    ultimately show ?thesis using True by (simp add: upt_conv_Cons)
  next
    case False
    with Suc.prems have lt: "k < 25" by simp
    then have "pop_z [letter_a + k] = [letter_a + k]"
      by (subst pop_z.simps) (simp add: letter_a_def letter_z_def)
    then have st: "enumerator_step False [letter_a + k] = ([letter_a + Suc k], None)"
      using lt by (simp add: enumerator_step_def py_chr_def letter_a_def)
    from lt Suc.prems have "Suc k \<le> 25" "26 - Suc k \<le> n" by simp_all
    then have "enumeration (replicate n False) [letter_a + Suc k]
       = (map (\<lambda>i. [letter_a + i]) [Suc k..<26], [])"
      by (rule Suc.IH)
    with st lt show ?thesis by (simp add: upt_conv_Cons)
  qed
qed

lemma alphabet: "map (\<lambda>i. [letter_a + i]) [0..<26] = map (\<lambda>c. [c]) (lit ''abcdefghijklmnopqrstuvwxyz'')"
  by (simp add: lit_def letter_a_def upt_conv_Cons)

section \<open>The setup\<close>

lemma type_attempts_events:
  "set (fst (type_attempts bt env i n)) \<subseteq> {LookupType, SelectType, Delay 2000}"
proof (induction n arbitrary: i)
  case 0
  then show ?case by simp
next
  case (Suc n)
  obtain tr r where t: "type_attempts bt env (Suc i) n = (tr, r)"
    by (cases "type_attempts bt env (Suc i) n")
  with Suc [of "Suc i"] have "set tr \<subseteq> {LookupType, SelectType, Delay 2000}" by simp
  with t show ?case
    by (auto split: type_attempt.splits option.splits)
qed

lemma session_body_reached:
  assumes "reaches_loop bt env"
  shows "\<exists>pre. set pre \<subseteq> setup_events
      \<and> session_body bt env envs
          = (pre @ fst (search_loop bt envs (lit ''a'')), loop_left (snd (search_loop bt envs (lit ''a''))))"
proof -
  from assms have g: "goto env = None" "register_wait env = None" "register_select env = None"
    by (simp_all add: reaches_loop_def)
  from assms have "advanced env \<noteq> Some Interrupt" by (simp add: reaches_loop_def)
  then have adv: "(case advanced env of Some e \<Rightarrow> uncaught e | None \<Rightarrow> None) = None"
    by (cases "advanced env") (auto simp: uncaught_None intro: exc.exhaust)
  obtain tr2 where ta: "type_attempts bt env 0 5 = (tr2, Type_Set)"
    using assms by (cases "type_attempts bt env 0 5") (simp add: reaches_loop_def)
  have s2: "set tr2 \<subseteq> {LookupType, SelectType, Delay 2000}"
    using type_attempts_events [of bt env 0 5] ta by simp
  from assms have "status_filter env \<noteq> Inl Interrupt" by (simp add: reaches_loop_def)
  then obtain tr3 where sf: "(case status_filter env of
                         Inl e \<Rightarrow> ([], uncaught e)
                       | Inr there \<Rightarrow> (if there then [Delay 500, SelectStatus] else [Delay 500], None))
                    = (tr3, None)" and s3: "set tr3 \<subseteq> {Delay 500, SelectStatus}"
    by (cases "status_filter env") (auto simp: uncaught_None intro: exc.exhaust)
  obtain tr4 le where sl: "search_loop bt envs (lit ''a'') = (tr4, le)"
    by (cases "search_loop bt envs (lit ''a'')")
  let ?pre = "[Navigate, Delay 2000, SelectRegister, Delay 3000] @ tr2 @ tr3"
  have "set ?pre \<subseteq> setup_events" using s2 s3 by (auto simp: setup_events_def)
  moreover have "session_body bt env envs = (?pre @ tr4, loop_left le)"
    using g adv ta sf sl by (simp add: session_body_def)
  ultimately show ?thesis using sl by (metis fst_conv snd_conv)
qed

lemma leave_cases: "leave e = Aborted \<or> (\<exists>x. leave e = Raised x)"
  by (simp add: leave_def)

lemma session_body_stopped:
  assumes "new_page env = None" and "\<not> reaches_loop bt env"
  shows "\<exists>tr e. session_body bt env envs = (tr, e) \<and> set tr \<subseteq> setup_events
           \<and> (e = Aborted \<or> (\<exists>x. e = Raised x))"
proof (cases "goto env")
  case (Some e)
  then have "session_body bt env envs = ([Navigate], Raised e)" by (simp add: session_body_def)
  then show ?thesis by (simp add: setup_events_def)
next
  case g: None
  let ?tr0 = "[Navigate, Delay 2000]"
  show ?thesis
  proof (cases "case advanced env of Some e \<Rightarrow> uncaught e | None \<Rightarrow> None")
    case (Some e)
    with g have "session_body bt env envs = (?tr0, Raised e)" by (simp add: session_body_def)
    then show ?thesis by (simp add: setup_events_def)
  next
    case adv: None
    then have a: "advanced env \<noteq> Some Interrupt"
      by (auto simp: uncaught_def caught_def)
    show ?thesis
    proof (cases "register_wait env")
      case (Some e)
      with g adv have "session_body bt env envs = (?tr0, leave e)" by (simp add: session_body_def)
      then show ?thesis using leave_cases [of e] by (auto simp: setup_events_def)
    next
      case rw: None
      show ?thesis
      proof (cases "register_select env")
        case (Some e)
        with g adv rw have "session_body bt env envs = (?tr0 @ [SelectRegister], leave e)"
          by (simp add: session_body_def)
        then show ?thesis using leave_cases [of e] by (auto simp: setup_events_def)
      next
        case rs: None
        let ?tr1 = "?tr0 @ [SelectRegister, Delay 3000]"
        obtain tr2 r where ta: "type_attempts bt env 0 5 = (tr2, r)"
          by (cases "type_attempts bt env 0 5")
        have s2: "set (?tr1 @ tr2) \<subseteq> setup_events"
          using type_attempts_events [of bt env 0 5] ta by (auto simp: setup_events_def)
        show ?thesis
        proof (cases r)
          case (Type_Raised e)
          with g adv rw rs ta have "session_body bt env envs = (?tr1 @ tr2, leave e)"
            by (simp add: session_body_def)
          then show ?thesis using leave_cases [of e] s2 by auto
        next
          case Type_Not_Found
          with g adv rw rs ta have "session_body bt env envs = (?tr1 @ tr2, Aborted)"
            by (simp add: session_body_def)
          then show ?thesis using s2 by auto
        next
          case Type_Set
          with assms g a rw rs ta have "status_filter env = Inl Interrupt"
            by (simp add: reaches_loop_def)
          with g adv rw rs ta Type_Set
          have "session_body bt env envs = (?tr1 @ tr2, Raised Interrupt)"
            by (simp add: session_body_def uncaught_def caught_def)
          then show ?thesis using s2 by auto
        qed
      qed
    qed
  qed
qed

section \<open>The sweep from a to z\<close>

lemma map_saturated_False:
  "\<forall>env \<in> set envs. \<not> saturated env \<Longrightarrow> map saturated envs = replicate (length envs) False"
  by (induction envs) simp_all

lemma lowercase_a: "lowercase (lit ''a'')"
  by (simp add: lit_def lowercase_def letter_a_def letter_z_def)

lemma lit_a: "lit ''a'' = [letter_a + 0]"
  by (simp add: lit_def letter_a_def)

text \<open>
  C4: from \<open>["a"]\<close>, with a pass that completes and reads no saturation every time, the
  loop searches the single-letter terms \<open>"a"\<close> to \<open>"z"\<close> in alphabetical order and stops
  after exactly 26 passes, each making one step: after fewer it is still running, on the
  next letter, and the step from \<open>["z"]\<close> gives none.
\<close>

theorem unsaturated_sweep:
  assumes "\<forall>env \<in> set envs. passes env \<and> \<not> saturated env"
  shows "(26 \<le> length envs \<longrightarrow>
            searched (fst (search_loop bt envs (lit ''a'')))
              = map (\<lambda>c. [c]) (lit ''abcdefghijklmnopqrstuvwxyz'')
            \<and> snd (search_loop bt envs (lit ''a'')) = Exhausted)
       \<and> (length envs < 26 \<longrightarrow>
            snd (search_loop bt envs (lit ''a'')) = Pending [letter_a + length envs])
       \<and> enumeration (replicate 26 False) (lit ''a'')
            = (map (\<lambda>c. [c]) (lit ''abcdefghijklmnopqrstuvwxyz''), [])
       \<and> advance False (lit ''z'') = None"
proof -
  from assms have p: "\<forall>env \<in> set envs. passes env" by blast
  from assms have m: "map saturated envs = replicate (length envs) False"
    by (simp add: map_saturated_False)
  note lp = loop_passes [OF p lowercase_a, of bt, unfolded m lit_a]
  have long: "searched (fst (search_loop bt envs (lit ''a'')))
              = map (\<lambda>c. [c]) (lit ''abcdefghijklmnopqrstuvwxyz'')
            \<and> snd (search_loop bt envs (lit ''a'')) = Exhausted" if "26 \<le> length envs"
  proof -
    from that have "enumeration (replicate (length envs) False) [letter_a + 0]
        = (map (\<lambda>i. [letter_a + i]) [0..<26], [])"
      by (intro enumeration_exhausted) simp_all
    with lp show ?thesis by (simp add: alphabet lit_a)
  qed
  have short: "snd (search_loop bt envs (lit ''a'')) = Pending [letter_a + length envs]"
    if "length envs < 26"
  proof -
    from that have "enumeration (replicate (length envs) False) [letter_a + 0]
        = (map (\<lambda>i. [letter_a + i]) [0..<0 + length envs], [letter_a + 0 + length envs])"
      by (intro enumeration_pending) simp
    with lp show ?thesis by (simp add: lit_a)
  qed
  have e26: "enumeration (replicate 26 False) (lit ''a'')
            = (map (\<lambda>c. [c]) (lit ''abcdefghijklmnopqrstuvwxyz''), [])"
    using enumeration_exhausted [of 0 26] by (simp add: alphabet lit_a)
  have z: "advance False (lit ''z'') = None"
    by (simp add: advance_def enumerator_step_def lit_def pop_z.simps letter_z_def)
  from long short e26 z show ?thesis by blast
qed

lemma quiet_few: "passes (quiet_pass few) \<and> \<not> saturated (quiet_pass few)"
  by (simp add: passes_def saturated_def businesses_count_def quiet_pass_def few_def lit_def)

theorem unsaturated_sweep_witness:
  "passes (quiet_pass few) \<and> \<not> saturated (quiet_pass few)
   \<and> searched (fst (search_loop nfp (replicate 26 (quiet_pass few)) (lit ''a'')))
        = map (\<lambda>c. [c]) (lit ''abcdefghijklmnopqrstuvwxyz'')
   \<and> snd (search_loop nfp (replicate 26 (quiet_pass few)) (lit ''a'')) = Exhausted
   \<and> snd (search_loop nfp (replicate 25 (quiet_pass few)) (lit ''a'')) = Pending (lit ''z'')"
proof -
  have h26: "\<forall>env \<in> set (replicate 26 (quiet_pass few)). passes env \<and> \<not> saturated env"
    using quiet_few by simp
  have h25: "\<forall>env \<in> set (replicate 25 (quiet_pass few)). passes env \<and> \<not> saturated env"
    using quiet_few by simp
  have z: "[letter_a + 25] = lit ''z''" by (simp add: lit_def letter_a_def)
  from unsaturated_sweep [OF h26, of nfp] unsaturated_sweep [OF h25, of nfp] quiet_few z
  show ?thesis by simp
qed

section \<open>The terms searched\<close>

lemma iteration_lowercase:
  assumes "lowercase w"
  shows "lowercase (fst (snd (iteration bt env w)))"
  using iteration_state [of bt env w] assms step_lowercase(2) [OF assms, of "saturated env"]
  by auto

lemma loop_Fill:
  assumes "lowercase w" and "Fill t \<in> set (fst (search_loop bt envs w))"
  shows "t \<noteq> [] \<and> lowercase t"
  using assms
proof (induction envs arbitrary: w)
  case Nil
  then show ?case by simp
next
  case (Cons env envs)
  show ?case
  proof (cases "length w > 0")
    case False
    with Cons.prems show ?thesis by simp
  next
    case True
    obtain tr w' x where it: "iteration bt env w = (tr, w', x)" by (cases "iteration bt env w")
    have lw': "lowercase w'" using iteration_lowercase [OF Cons.prems(1), of bt env] it by simp
    show ?thesis
    proof (cases "Fill t \<in> set tr")
      case True
      with it have "t = w" using iteration_Fill [of t bt env w] by simp
      with \<open>length w > 0\<close> Cons.prems(1) show ?thesis by simp
    next
      case False
      with Cons.prems(2) True it have "Fill t \<in> set (fst (search_loop bt envs w'))"
        by (cases x; cases "search_loop bt envs w'") auto
      with lw' show ?thesis by (rule Cons.IH)
    qed
  qed
qed

lemma session_trace:
  "set (fst (process_business_type_session bt env envs))
     \<subseteq> setup_events \<union> {PageClose}
        \<union> (if reaches_loop bt env then set (fst (search_loop bt envs (lit ''a''))) else {})"
proof (cases "new_page env")
  case (Some e)
  then show ?thesis by (simp add: process_business_type_session_def)
next
  case None
  show ?thesis
  proof (cases "reaches_loop bt env")
    case True
    then obtain pre where pre: "set pre \<subseteq> setup_events"
      and sb: "session_body bt env envs
          = (pre @ fst (search_loop bt envs (lit ''a'')), loop_left (snd (search_loop bt envs (lit ''a''))))"
      using session_body_reached [of bt env envs] by blast
    from None sb pre True show ?thesis
      by (auto simp: process_business_type_session_def split: session_end.splits)
  next
    case False
    then obtain tr e where sb: "session_body bt env envs = (tr, e)" and tr: "set tr \<subseteq> setup_events"
      using session_body_stopped [OF None, of bt envs] by blast
    from None sb tr False show ?thesis
      by (auto simp: process_business_type_session_def split: session_end.splits)
  qed
qed

lemma iteration_emptied:
  assumes "w \<noteq> []" and "fst (snd (iteration bt env w)) = []"
  shows "\<not> saturated env \<and> (\<forall>c \<in> set w. c = letter_z)"
proof -
  from assms iteration_state [of bt env w]
  have "fst (enumerator_step (saturated env) w) = []" by auto
  then show ?thesis by (rule step_empty)
qed

text \<open>
  C5: every term a session fills into the search field is a non-empty sequence of lowercase
  letters; a saturated step never gives the empty sequence; and the letters run out, in a
  step or in a whole pass of the loop, only on a non-saturated step from a term that is
  all \<open>'z'\<close>.
\<close>

theorem terms_never_empty:
  "(\<forall>t. Fill t \<in> set (fst (process_business_type_session bt senv envs))
        \<longrightarrow> t \<noteq> [] \<and> lowercase t)
   \<and> (\<forall>w. fst (enumerator_step True w) \<noteq> [] \<and> advance True w \<noteq> None)
   \<and> (\<forall>w. w \<noteq> [] \<and> fst (enumerator_step False w) = [] \<longrightarrow> (\<forall>c \<in> set w. c = letter_z))
   \<and> (\<forall>env w. w \<noteq> [] \<and> fst (snd (iteration bt env w)) = []
        \<longrightarrow> \<not> saturated env \<and> (\<forall>c \<in> set w. c = letter_z))"
proof -
  have a: "t \<noteq> [] \<and> lowercase t"
    if "Fill t \<in> set (fst (process_business_type_session bt senv envs))" for t
  proof -
    from that session_trace [of bt senv envs]
    have "Fill t \<in> set (fst (search_loop bt envs (lit ''a'')))"
      by (auto simp: setup_events_def split: if_splits)
    with lowercase_a show ?thesis by (rule loop_Fill)
  qed
  have b: "fst (enumerator_step True w) \<noteq> [] \<and> advance True w \<noteq> None" for w
    by (simp add: step_saturated advance_def)
  have c: "\<forall>c \<in> set w. c = letter_z" if "w \<noteq> [] \<and> fst (enumerator_step False w) = []" for w
    using that step_empty [of False w] by blast
  have d: "\<not> saturated env \<and> (\<forall>c \<in> set w. c = letter_z)"
    if "w \<noteq> [] \<and> fst (snd (iteration bt env w)) = []" for env w
    using that iteration_emptied [of w bt env] by blast
  from a b c d show ?thesis by blast
qed

lemma ready_types: "type_attempts nfp ready_setup 0 5 = ([LookupType, SelectType], Type_Set)"
  by (simp add: numeral_eq_Suc ready_setup_def offers_def nfp_def lit_def)

lemma ready_reaches: "reaches_loop nfp ready_setup"
  by (simp add: reaches_loop_def ready_types) (simp add: ready_setup_def)

lemma saturated_full: "saturated (quiet_pass full)"
  by (simp add: saturated_def businesses_count_def quiet_pass_def full_def lit_def)

lemma not_saturated_few: "\<not> saturated (quiet_pass few)"
  by (simp add: saturated_def businesses_count_def quiet_pass_def few_def lit_def)

lemma passes_quiet: "passes (quiet_pass b)"
  by (simp add: passes_def quiet_pass_def)

lemma first_pass_fills:
  assumes p: "passes env"
  shows "Fill (lit ''a'') \<in> set (fst (search_loop bt (env # envs) (lit ''a'')))"
proof -
  obtain r where "iteration bt env (lit ''a'')
           = ([Fill (lit ''a''), ClickSearch, Delay 2000] @ fst (expand_page_size env (lit ''a'')) @ [Deliver r, RandomDelay],
              fst (enumerator_step (saturated env) (lit ''a'')), None)"
    using iteration_passes [OF p lowercase_a] by blast
  then show ?thesis
    by (cases "search_loop bt envs (fst (enumerator_step (saturated env) (lit ''a'')))")
       (simp add: lit_def)
qed

theorem terms_never_empty_witness:
  "Fill (lit ''a'') \<in> set (fst (process_business_type_session nfp ready_setup [quiet_pass few]))
   \<and> lit ''a'' \<noteq> [] \<and> lowercase (lit ''a'')
   \<and> lit ''zz'' \<noteq> [] \<and> fst (enumerator_step False (lit ''zz'')) = []
   \<and> lit ''zz'' = [letter_z, letter_z]"
proof -
  obtain pre where "session_body nfp ready_setup [quiet_pass few]
          = (pre @ fst (search_loop nfp [quiet_pass few] (lit ''a'')),
             loop_left (snd (search_loop nfp [quiet_pass few] (lit ''a''))))"
    using session_body_reached [OF ready_reaches] by blast
  moreover have "Fill (lit ''a'') \<in> set (fst (search_loop nfp [quiet_pass few] (lit ''a'')))"
    using passes_quiet by (rule first_pass_fills)
  ultimately have f: "Fill (lit ''a'') \<in> set (fst (process_business_type_session nfp ready_setup [quiet_pass few]))"
    by (auto simp: process_business_type_session_def ready_setup_def split: session_end.splits)
  have z: "lit ''zz'' \<noteq> [] \<and> fst (enumerator_step False (lit ''zz'')) = []"
    by (simp add: enumerator_step_def lit_def pop_z.simps letter_z_def)
  have zz: "lit ''zz'' = [letter_z, letter_z]"
    by (simp add: lit_def letter_z_def)
  from f z zz terms_never_empty [of nfp ready_setup "[quiet_pass few]"]
  show ?thesis by blast
qed

section \<open>The banner that cannot be read\<close>

lemma length_pop_z: "length (pop_z w) \<le> length w"
proof -
  obtain k where "w = pop_z w @ replicate k letter_z" using pop_z_decomp by blast
  then have "length w = length (pop_z w) + k" by (metis length_append length_replicate)
  then show ?thesis by simp
qed

lemma length_unsaturated_step: "length (fst (enumerator_step False w)) \<le> length w"
  using length_pop_z [of w]
  by (auto simp: enumerator_step_def Let_def split: sum.splits)

text \<open>
  C10: when the banner element is absent from the captured page, or reading it raises an
  exception, \<open>businesses_count_200\<close> stays false: the pass never descends, a pass that
  delivers its result has made the non-saturated step, and a pass in which nothing else
  fails moves on from the term instead of staying on it.
\<close>

theorem unreadable_banner_unsaturated:
  assumes "banner env = Inr None \<or> banner env = Inl Error"
  shows "businesses_count env = (False, None)
       \<and> fst (snd (iteration bt env w)) \<noteq> w @ [letter_a]
       \<and> (\<forall>r. Deliver r \<in> set (fst (iteration bt env w))
             \<longrightarrow> fst (snd (iteration bt env w)) = fst (enumerator_step False w))
       \<and> (passes env \<and> lowercase w \<and> w \<noteq> []
             \<longrightarrow> fst (snd (iteration bt env w)) = fst (enumerator_step False w)
                 \<and> fst (snd (iteration bt env w)) \<noteq> w
                 \<and> (\<exists>r. Deliver r \<in> set (fst (iteration bt env w))))"
proof -
  from assms have bc: "businesses_count env = (False, None)"
    by (auto simp: businesses_count_def uncaught_def caught_def)
  then have sat: "saturated env = False" by (simp add: saturated_def)
  have len: "length (fst (snd (iteration bt env w))) \<le> length w"
    using iteration_state [of bt env w] length_unsaturated_step [of w] sat by auto
  then have nd: "fst (snd (iteration bt env w)) \<noteq> w @ [letter_a]" by auto
  have del: "fst (snd (iteration bt env w)) = fst (enumerator_step False w)"
    if "Deliver r \<in> set (fst (iteration bt env w))" for r
    using iteration_Deliver [OF that] sat by simp
  have pass: "fst (snd (iteration bt env w)) = fst (enumerator_step False w)
                 \<and> fst (snd (iteration bt env w)) \<noteq> w
                 \<and> (\<exists>r. Deliver r \<in> set (fst (iteration bt env w)))"
    if p: "passes env \<and> lowercase w \<and> w \<noteq> []"
  proof -
    from p obtain r where it: "iteration bt env w
           = ([Fill w, ClickSearch, Delay 2000] @ fst (expand_page_size env w) @ [Deliver r, RandomDelay],
              fst (enumerator_step (saturated env) w), None)"
      using iteration_passes [of env w bt] by blast
    then have st: "fst (snd (iteration bt env w)) = fst (enumerator_step False w)"
      by (simp add: sat)
    have "fst (enumerator_step False w) \<noteq> w"
    proof (cases "fst (enumerator_step False w) = []")
      case True
      with p show ?thesis by auto
    next
      case False
      with p have "w < fst (enumerator_step False w)" using step_increases [of w False] by blast
      then show ?thesis by simp
    qed
    with st it show ?thesis by auto
  qed
  from bc nd del pass show ?thesis by blast
qed

theorem unreadable_banner_unsaturated_witness:
  "banner (quiet_pass None) = Inr None
   \<and> businesses_count (quiet_pass None) = (False, None)
   \<and> fst (snd (iteration nfp (quiet_pass None) (lit ''ab''))) = lit ''ac''"
proof -
  have b: "banner (quiet_pass None) = Inr None" by (simp add: quiet_pass_def)
  then have h: "banner (quiet_pass None) = Inr None \<or> banner (quiet_pass None) = Inl Error"
    by simp
  have l: "lowercase (lit ''ab'') \<and> lit ''ab'' \<noteq> []"
    by (simp add: lit_def lowercase_def letter_a_def letter_z_def)
  have s: "fst (enumerator_step False (lit ''ab'')) = lit ''ac''"
    by (simp add: enumerator_step_def lit_def pop_z.simps letter_z_def py_chr_def)
  from unreadable_banner_unsaturated [OF h, of nfp "lit ''ab''"] b l s passes_quiet [of None]
  show ?thesis by simp
qed

section \<open>The business type that never appears\<close>

lemma type_attempts_not_offered:
  assumes "\<forall>j. i \<le> j \<and> j < i + n \<longrightarrow> \<not> offers bt (type_lookup env j)"
  shows "snd (type_attempts bt env i n) \<noteq> Type_Set"
  using assms
proof (induction n arbitrary: i)
  case 0
  then show ?case by simp
next
  case (Suc n)
  from Suc.prems have here: "\<not> offers bt (type_lookup env i)" by simp
  from Suc.prems have "\<forall>j. Suc i \<le> j \<and> j < Suc i + n \<longrightarrow> \<not> offers bt (type_lookup env j)"
    by simp
  then have "snd (type_attempts bt env (Suc i) n) \<noteq> Type_Set" by (rule Suc.IH)
  with here show ?case
    by (cases "type_attempts bt env (Suc i) n") (auto split: type_attempt.splits)
qed

lemma type_attempts_all_missing:
  assumes "\<forall>j. i \<le> j \<and> j < i + n
             \<longrightarrow> \<not> offers bt (type_lookup env j) \<and> (\<forall>e. type_lookup env j \<noteq> LookupRaises e)"
  shows "type_attempts bt env i n = (concat (replicate n [LookupType, Delay 2000]), Type_Not_Found)"
  using assms
proof (induction n arbitrary: i)
  case 0
  then show ?case by simp
next
  case (Suc n)
  from Suc.prems have here: "\<not> offers bt (type_lookup env i)"
      "\<forall>e. type_lookup env i \<noteq> LookupRaises e" by simp_all
  from Suc.prems have "\<forall>j. Suc i \<le> j \<and> j < Suc i + n
             \<longrightarrow> \<not> offers bt (type_lookup env j) \<and> (\<forall>e. type_lookup env j \<noteq> LookupRaises e)"
    by simp
  then have "type_attempts bt env (Suc i) n
      = (concat (replicate n [LookupType, Delay 2000]), Type_Not_Found)" by (rule Suc.IH)
  with here show ?case
    by (auto split: type_attempt.splits)
qed

text \<open>
  C8: when none of the five looks at the business-type dropdown finds the requested
  option, the session ends before the search loop: no term is searched and the result
  callback is never called. When the setup up to there succeeds and no look raises, the
  session makes exactly five looks, each followed by a two-second delay, then returns and
  closes the page.
\<close>

theorem type_never_offered_aborts:
  assumes "\<forall>i<5. \<not> offers bt (type_lookup env i)"
  shows "(\<forall>r. Deliver r \<notin> set (fst (process_business_type_session bt env envs)))
       \<and> (\<forall>t. Fill t \<notin> set (fst (process_business_type_session bt env envs)))
       \<and> (snd (process_business_type_session bt env envs) = Aborted
            \<or> (\<exists>e. snd (process_business_type_session bt env envs) = Raised e))
       \<and> (new_page env = None \<and> goto env = None \<and> advanced env \<noteq> Some Interrupt
            \<and> register_wait env = None \<and> register_select env = None
            \<and> (\<forall>i<5. \<forall>e. type_lookup env i \<noteq> LookupRaises e)
           \<longrightarrow> process_business_type_session bt env envs
                 = ([Navigate, Delay 2000, SelectRegister, Delay 3000]
                      @ concat (replicate 5 [LookupType, Delay 2000]) @ [PageClose],
                    Aborted))"
proof -
  let ?S = "process_business_type_session bt env envs"
  from assms have "snd (type_attempts bt env 0 5) \<noteq> Type_Set"
    by (intro type_attempts_not_offered) simp
  then have nr: "\<not> reaches_loop bt env" by (simp add: reaches_loop_def)
  with session_trace [of bt env envs] have tr: "set (fst ?S) \<subseteq> setup_events \<union> {PageClose}"
    by simp
  then have a: "\<forall>r. Deliver r \<notin> set (fst ?S)" and b: "\<forall>t. Fill t \<notin> set (fst ?S)"
    by (auto simp: setup_events_def)
  have c: "snd ?S = Aborted \<or> (\<exists>e. snd ?S = Raised e)"
  proof (cases "new_page env")
    case (Some e)
    then show ?thesis by (simp add: process_business_type_session_def)
  next
    case None
    then obtain tr e where "session_body bt env envs = (tr, e)"
        "e = Aborted \<or> (\<exists>x. e = Raised x)"
      using session_body_stopped [OF None nr, of envs] by blast
    with None show ?thesis by (auto simp: process_business_type_session_def)
  qed
  have d: "?S = ([Navigate, Delay 2000, SelectRegister, Delay 3000]
                      @ concat (replicate 5 [LookupType, Delay 2000]) @ [PageClose], Aborted)"
    if h: "new_page env = None \<and> goto env = None \<and> advanced env \<noteq> Some Interrupt
            \<and> register_wait env = None \<and> register_select env = None
            \<and> (\<forall>i<5. \<forall>e. type_lookup env i \<noteq> LookupRaises e)"
  proof -
    from h have adv: "(case advanced env of Some e \<Rightarrow> uncaught e | None \<Rightarrow> None) = None"
      by (cases "advanced env") (auto simp: uncaught_None intro: exc.exhaust)
    from h assms have "type_attempts bt env 0 5
        = (concat (replicate 5 [LookupType, Delay 2000]), Type_Not_Found)"
      by (intro type_attempts_all_missing) simp
    with h adv have "session_body bt env envs
        = ([Navigate, Delay 2000, SelectRegister, Delay 3000]
             @ concat (replicate 5 [LookupType, Delay 2000]), Aborted)"
      by (simp add: session_body_def)
    with h show ?thesis by (simp add: process_business_type_session_def)
  qed
  from a b c d show ?thesis by blast
qed

lemma absent_never_offers: "\<forall>i<5. \<not> offers nfp (type_lookup absent_setup i)"
  by (simp add: absent_setup_def ready_setup_def offers_def nfp_def lit_def)

theorem type_never_offered_aborts_witness:
  "process_business_type_session nfp absent_setup [quiet_pass few]
     = ([Navigate, Delay 2000, SelectRegister, Delay 3000,
         LookupType, Delay 2000, LookupType, Delay 2000, LookupType, Delay 2000,
         LookupType, Delay 2000, LookupType, Delay 2000, PageClose], Aborted)"
proof -
  have h: "new_page absent_setup = None \<and> goto absent_setup = None
      \<and> advanced absent_setup \<noteq> Some Interrupt
      \<and> register_wait absent_setup = None \<and> register_select absent_setup = None
      \<and> (\<forall>i<5. \<forall>e. type_lookup absent_setup i \<noteq> LookupRaises e)"
    by (simp add: absent_setup_def ready_setup_def)
  from type_never_offered_aborts [OF absent_never_offers, of "[quiet_pass few]"] h
  have "process_business_type_session nfp absent_setup [quiet_pass few]
                 = ([Navigate, Delay 2000, SelectRegister, Delay 3000]
                      @ concat (replicate 5 [LookupType, Delay 2000]) @ [PageClose],
                    Aborted)"
    by blast
  then show ?thesis by (simp add: numeral_eq_Suc)
qed

section \<open>Closing the page\<close>

lemma loop_no_close: "PageClose \<notin> set (fst (search_loop bt envs w))"
proof (induction envs arbitrary: w)
  case Nil
  then show ?case by simp
next
  case (Cons env envs)
  have it: "PageClose \<notin> set (fst (iteration bt env w))"
    using iteration_trace [of bt env w] expand_events [of env w]
    by (auto simp: pre_events_def)
  obtain tr w' x where i: "iteration bt env w = (tr, w', x)" by (cases "iteration bt env w")
  obtain tr' le where l: "search_loop bt envs w' = (tr', le)" by (cases "search_loop bt envs w'")
  from Cons [of w'] l have "PageClose \<notin> set tr'" by simp
  with it i l show ?case by (cases x) auto
qed

lemma body_no_close:
  assumes "new_page env = None"
  shows "PageClose \<notin> set (fst (session_body bt env envs))"
proof (cases "reaches_loop bt env")
  case True
  then obtain pre where "set pre \<subseteq> setup_events"
      "session_body bt env envs
          = (pre @ fst (search_loop bt envs (lit ''a'')), loop_left (snd (search_loop bt envs (lit ''a''))))"
    using session_body_reached [of bt env envs] by blast
  then show ?thesis using loop_no_close [of bt envs "lit ''a''"]
    by (auto simp: setup_events_def)
next
  case False
  then obtain tr e where "session_body bt env envs = (tr, e)" "set tr \<subseteq> setup_events"
    using session_body_stopped [OF assms, of bt envs] by blast
  then show ?thesis by (auto simp: setup_events_def)
qed

text \<open>
  C9: once the page is made, however the session ends (the loop runs out, the setup
  returns early, or an exception leaves the function), the last call is the closing of
  the page, made once and after everything the body did. A session whose loop is still
  running has not closed it.
\<close>

theorem page_closed_on_every_exit:
  assumes "new_page env = None"
  shows "(snd (process_business_type_session bt env envs) = Completed
          \<or> snd (process_business_type_session bt env envs) = Aborted
          \<or> (\<exists>e. snd (process_business_type_session bt env envs) = Raised e)
         \<longrightarrow> fst (process_business_type_session bt env envs)
                 = fst (session_body bt env envs) @ [PageClose]
             \<and> PageClose \<notin> set (fst (session_body bt env envs))
             \<and> snd (session_body bt env envs) = snd (process_business_type_session bt env envs))
       \<and> ((\<exists>w. snd (process_business_type_session bt env envs) = Running w)
         \<longrightarrow> PageClose \<notin> set (fst (process_business_type_session bt env envs)))"
proof -
  obtain tr e where sb: "session_body bt env envs = (tr, e)" by (cases "session_body bt env envs")
  have nc: "PageClose \<notin> set tr" using body_no_close [OF assms, of bt envs] sb by simp
  show ?thesis
  proof (cases e)
    case (Running w)
    with assms sb nc show ?thesis by (simp add: process_business_type_session_def)
  qed (use assms sb nc in \<open>simp_all add: process_business_type_session_def\<close>)
qed

lemma sweep_completes:
  "snd (process_business_type_session nfp ready_setup (replicate 26 (quiet_pass few))) = Completed"
proof -
  let ?envs = "replicate 26 (quiet_pass few)"
  have p: "\<forall>env \<in> set ?envs. passes env" using passes_quiet by simp
  have m: "map saturated ?envs = replicate 26 False" using not_saturated_few by simp
  have "enumeration (replicate 26 False) [letter_a + 0] = (map (\<lambda>i. [letter_a + i]) [0..<26], [])"
    by (intro enumeration_exhausted) simp_all
  with loop_passes [OF p lowercase_a, of nfp] m
  have le: "snd (search_loop nfp ?envs (lit ''a'')) = Exhausted" by (simp add: lit_a)
  obtain pre where "session_body nfp ready_setup ?envs
          = (pre @ fst (search_loop nfp ?envs (lit ''a'')),
             loop_left (snd (search_loop nfp ?envs (lit ''a''))))"
    using session_body_reached [OF ready_reaches] by blast
  with le have "snd (session_body nfp ready_setup ?envs) = Completed"
    by (simp add: loop_left_def)
  moreover have "new_page ready_setup = None" by (simp add: ready_setup_def)
  ultimately show ?thesis
    by (cases "session_body nfp ready_setup ?envs")
       (simp add: process_business_type_session_def)
qed

lemma absent_aborts: "snd (process_business_type_session nfp absent_setup []) = Aborted"
proof -
  have "type_attempts nfp absent_setup 0 5
      = (concat (replicate 5 [LookupType, Delay 2000]), Type_Not_Found)"
    by (intro type_attempts_all_missing)
       (simp add: absent_setup_def ready_setup_def offers_def nfp_def lit_def)
  then have "snd (session_body nfp absent_setup []) = Aborted"
    by (simp add: session_body_def absent_setup_def ready_setup_def)
  moreover have "new_page absent_setup = None" by (simp add: absent_setup_def ready_setup_def)
  ultimately show ?thesis
    by (cases "session_body nfp absent_setup []")
       (simp add: process_business_type_session_def)
qed

lemma offline_raises:
  "process_business_type_session nfp offline_setup [] = ([Navigate, PageClose], Raised Error)"
  by (simp add: process_business_type_session_def session_body_def offline_setup_def
      ready_setup_def)

theorem page_closed_on_every_exit_witness:
  "process_business_type_session nfp offline_setup [] = ([Navigate, PageClose], Raised Error)
   \<and> snd (process_business_type_session nfp absent_setup []) = Aborted
   \<and> last (fst (process_business_type_session nfp absent_setup [])) = PageClose
   \<and> snd (process_business_type_session nfp ready_setup (replicate 26 (quiet_pass few)))
        = Completed
   \<and> last (fst (process_business_type_session nfp ready_setup (replicate 26 (quiet_pass few))))
        = PageClose"
proof -
  have n: "new_page absent_setup = None" "new_page ready_setup = None"
    by (simp_all add: absent_setup_def ready_setup_def)
  from page_closed_on_every_exit [OF n(1), of nfp "[]"] absent_aborts
  have a: "last (fst (process_business_type_session nfp absent_setup [])) = PageClose"
    by simp
  from page_closed_on_every_exit [OF n(2), of nfp "replicate 26 (quiet_pass few)"] sweep_completes
  have c: "last (fst (process_business_type_session nfp ready_setup (replicate 26 (quiet_pass few))))
        = PageClose"
    by simp
  from a c absent_aborts sweep_completes offline_raises show ?thesis by simp
qed

section \<open>Raising the page size\<close>

























section \<open>The handler of a failed pass\<close>

lemma handler_Error: "handler Error tr w = (tr @ [Delay 5000], w, None)"
  by (simp add: handler_def caught_def)

lemma stuck_pass_iteration: "iteration bt stuck_pass w = ([Fill w, Delay 5000], w, None)"
  by (simp add: iteration_def Let_def stuck_pass_def quiet_pass_def handler_Error)

lemma stuck_pass_loop:
  assumes "w \<noteq> []"
  shows "search_loop bt (stuck_pass # envs) w
           = ([Fill w, Delay 5000] @ fst (search_loop bt envs w), snd (search_loop bt envs w))"
  using assms by (cases "search_loop bt envs w") (simp add: stuck_pass_iteration)

lemma stuck_forever:
  assumes "w \<noteq> []"
  shows "search_loop bt (replicate n stuck_pass) w
           = (concat (replicate n [Fill w, Delay 5000]), Pending w)"
proof (induction n)
  case 0
  then show ?case using assms by simp
next
  case (Suc n)
  have "search_loop bt (replicate (Suc n) stuck_pass) w
      = ([Fill w, Delay 5000] @ fst (search_loop bt (replicate n stuck_pass) w),
         snd (search_loop bt (replicate n stuck_pass) w))"
    using stuck_pass_loop [OF assms, of bt "replicate n stuck_pass"] by simp
  with Suc show ?case by simp
qed

text \<open>
  C6: an exception raised while a term is processed is caught by the handler of lines
  283-287, which leaves the letters as they are. The session should then skip that term
  rather than stall, and the handler's comment says "just continue to next letter"; but
  with the letters unchanged the loop searches the same term again. A search field that cannot be
  filled keeps the session on \<open>"a"\<close> for as many passes as it lasts, and once it can be
  filled the term is searched and its result delivered, not skipped.
\<close>

theorem handler_retries_same_term:
  "search_loop bt (replicate n stuck_pass) (lit ''a'')
     = (concat (replicate n [Fill (lit ''a''), Delay 5000]), Pending (lit ''a''))
   \<and> snd (process_business_type_session nfp ready_setup (replicate n stuck_pass))
       = Running (lit ''a'')
   \<and> searched (fst (search_loop bt [stuck_pass, quiet_pass few] (lit ''a'')))
       = [lit ''a'', lit ''a'']
   \<and> snd (search_loop bt [stuck_pass, quiet_pass few] (lit ''a'')) = Pending (lit ''b'')"
proof -
  have ne: "lit ''a'' \<noteq> []" by (simp add: lit_def)
  have a: "search_loop bt (replicate n stuck_pass) (lit ''a'')
     = (concat (replicate n [Fill (lit ''a''), Delay 5000]), Pending (lit ''a''))" for bt
    using ne by (rule stuck_forever)
  obtain pre where "session_body nfp ready_setup (replicate n stuck_pass)
          = (pre @ fst (search_loop nfp (replicate n stuck_pass) (lit ''a'')),
             loop_left (snd (search_loop nfp (replicate n stuck_pass) (lit ''a''))))"
    using session_body_reached [OF ready_reaches] by blast
  then have "snd (session_body nfp ready_setup (replicate n stuck_pass)) = Running (lit ''a'')"
    by (simp add: a loop_left_def)
  moreover have "new_page ready_setup = None" by (simp add: ready_setup_def)
  ultimately have b: "snd (process_business_type_session nfp ready_setup (replicate n stuck_pass))
       = Running (lit ''a'')"
    by (cases "session_body nfp ready_setup (replicate n stuck_pass)")
       (simp add: process_business_type_session_def)
  have p: "\<forall>env \<in> set [quiet_pass few]. passes env" using passes_quiet by simp
  have en: "enumeration [False] (lit ''a'') = ([lit ''a''], lit ''b'')"
    by (simp add: enumerator_step_def lit_def pop_z.simps letter_z_def py_chr_def)
  from loop_passes [OF p lowercase_a, of bt] not_saturated_few en
  have q: "searched (fst (search_loop bt [quiet_pass few] (lit ''a''))) = [lit ''a'']
      \<and> snd (search_loop bt [quiet_pass few] (lit ''a'')) = Pending (lit ''b'')"
    by (simp add: lit_def)
  have "search_loop bt [stuck_pass, quiet_pass few] (lit ''a'')
      = ([Fill (lit ''a''), Delay 5000] @ fst (search_loop bt [quiet_pass few] (lit ''a'')),
         snd (search_loop bt [quiet_pass few] (lit ''a'')))"
    using ne by (rule stuck_pass_loop)
  with q have c: "searched (fst (search_loop bt [stuck_pass, quiet_pass few] (lit ''a'')))
       = [lit ''a'', lit ''a'']
     \<and> snd (search_loop bt [stuck_pass, quiet_pass few] (lit ''a'')) = Pending (lit ''b'')"
    by (simp add: searched_Cons)
  from a b c show ?thesis by simp
qed

theorem handler_retries_same_term_witness:
  "search_loop nfp [stuck_pass, stuck_pass, stuck_pass] (lit ''a'')
     = ([Fill (lit ''a''), Delay 5000, Fill (lit ''a''), Delay 5000, Fill (lit ''a''), Delay 5000],
        Pending (lit ''a''))"
  using handler_retries_same_term [of nfp 3] by (simp add: numeral_eq_Suc)

end
